theory Spec2Isabelle
  imports Main
begin

section \<open>The memory allocator of the dinosaur simulator\<close>

text \<open>
  The allocator of package \<open>dino\<close> keeps the address space as a slice of pointers to
  processes, \<^verbatim>\<open>type Memory []*Process\<close>. A cell is \<^verbatim>\<open>nil\<close> when it is free.
  Several cells point to the same process object, and the allocator writes the fields
  \<^verbatim>\<open>IsAllocated\<close> and \<^verbatim>\<open>MemoryAddress\<close> through such a pointer, so the model
  keeps an explicit store of process objects beside the slice.
\<close>

subsection \<open>Go values\<close>

text \<open>
  Go's \<^verbatim>\<open>int\<close> is taken to be 64 bits wide. The only sums that can leave its range
  are the \<^verbatim>\<open>start+offset\<close> of the bounds check and of the loop bounds; they wrap
  around. Counters that run over the indices of the slice stay below its length.
\<close>

definition max_int :: int where
  "max_int = 2 ^ 63 - 1"

definition wrap_int :: "int \<Rightarrow> int" where
  "wrap_int x = (x + 2 ^ 63) mod 2 ^ 64 - 2 ^ 63"

definition int_add :: "int \<Rightarrow> int \<Rightarrow> int" where
  "int_add a b = wrap_int (a + b)"

text \<open>
  A run-time panic: reading a field through \<^verbatim>\<open>nil\<close>, indexing outside the slice, and
  the \<^verbatim>\<open>panic(errorStr)\<close> of \<^verbatim>\<open>ReleaseProcess\<close>.
\<close>

datatype panic = NilDereference | IndexOutOfRange | CorruptedMemoryState

datatype 'a outcome = Panic panic | Return 'a

text \<open>
  One constructor for each \<^verbatim>\<open>errors.New\<close> of the source, in the order of the file.
  The text of the messages is not modelled.
\<close>

datatype error =
    ErrNotEnoughSpace
  | ErrNegativeStart
  | ErrOutOfMemoryBound
  | ErrNilProcess
  | ErrAlreadyInMemory
  | ErrSpaceOccupied
  | ErrAllocateNoID
  | ErrReleaseNoID
  | ErrUnsafeDelete

text \<open>The error kinds under which the design document files these errors.\<close>

datatype error_kind =
    InsufficientSpace
  | OutOfBounds
  | AlreadyAllocated
  | SpaceOccupied
  | MissingIdentity
  | NilProcess
  | UnsafeRelease

fun kind :: "error \<Rightarrow> error_kind" where
  "kind ErrNotEnoughSpace = InsufficientSpace"
| "kind ErrNegativeStart = OutOfBounds"
| "kind ErrOutOfMemoryBound = OutOfBounds"
| "kind ErrNilProcess = NilProcess"
| "kind ErrAlreadyInMemory = AlreadyAllocated"
| "kind ErrSpaceOccupied = SpaceOccupied"
| "kind ErrAllocateNoID = MissingIdentity"
| "kind ErrReleaseNoID = MissingIdentity"
| "kind ErrUnsafeDelete = UnsafeRelease"

subsection \<open>Processes, memory and the store\<close>

text \<open>
  Modelled from the spec: the struct \<^verbatim>\<open>Process\<close> is declared in a file of the package
  that is not among the sources. Its fields are those the data model of the design
  document lists, with the types at which the allocator reads and writes them.
\<close>

record Process =
  ID :: string
  Name :: string
  SizeInKB :: int
  IsAllocated :: bool
  MemoryAddress :: int

record MemoryBlock =
  Start :: int
  Size :: int
  Name :: string

text \<open>\<^verbatim>\<open>const FREE_BLOCK = string('\<close>U+2593\<^verbatim>\<open>')\<close>: the three bytes of its UTF-8 encoding.\<close>

definition FREE_BLOCK :: string where
  "FREE_BLOCK = [CHR 0xE2, CHR 0x96, CHR 0x93]"

text \<open>A pointer \<^verbatim>\<open>*Process\<close> is \<open>None\<close> (nil) or the address of a process object.\<close>

type_synonym addr = nat

type_synonym Memory = "addr option list"

record state =
  heap :: "addr \<Rightarrow> Process"
  mem :: Memory

text \<open>The index expression \<^verbatim>\<open>m[i]\<close>, which panics outside the slice.\<close>

definition cell :: "Memory \<Rightarrow> int \<Rightarrow> addr option outcome" where
  "cell m i = (if 0 \<le> i \<and> i < int (length m) then Return (m ! nat i) else Panic IndexOutOfRange)"

subsection \<open>The worst-fit search\<close>

record scan =
  bestStart :: int
  bestSize :: int
  currentStart :: int
  currentSize :: int
  previousWasEmpty :: bool

text \<open>The body of the loop \<^verbatim>\<open>for i := range m\<close> of \<^verbatim>\<open>WorstFit\<close>.\<close>

definition WorstFit_step :: "Memory \<Rightarrow> scan \<Rightarrow> nat \<Rightarrow> scan" where
  "WorstFit_step m s i =
     (if m ! i = None then
        (if previousWasEmpty s = False
         then s\<lparr>currentStart := int i, currentSize := 1, previousWasEmpty := True\<rparr>
         else s\<lparr>currentSize := currentSize s + 1\<rparr>)
      else if previousWasEmpty s = True then
        (if currentSize s > bestSize s
         then s\<lparr>previousWasEmpty := False, bestStart := currentStart s, bestSize := currentSize s\<rparr>
         else s\<lparr>previousWasEmpty := False\<rparr>)
      else s)"

definition WorstFit_init :: scan where
  "WorstFit_init =
     \<lparr>bestStart = - 1, bestSize = 0, currentStart = - 1, currentSize = 0, previousWasEmpty = False\<rparr>"

definition WorstFit_final :: "scan \<Rightarrow> scan" where
  "WorstFit_final s =
     (if currentSize s > bestSize s
      then s\<lparr>bestStart := currentStart s, bestSize := currentSize s\<rparr>
      else s)"

definition WorstFit :: "Memory \<Rightarrow> int \<Rightarrow> int \<times> int \<times> error option" where
  "WorstFit m sizeToFit =
     (let s = WorstFit_final (foldl (WorstFit_step m) WorstFit_init [0..<length m])
      in (bestStart s, bestSize s,
          if sizeToFit > bestSize s then Some ErrNotEnoughSpace else None))"

definition HasSpace :: "Memory \<Rightarrow> int \<Rightarrow> bool" where
  "HasSpace m size_wanted = (case WorstFit m size_wanted of (_, _, err) \<Rightarrow> err = None)"

subsection \<open>Bounds and emptiness\<close>

definition checkBounds :: "Memory \<Rightarrow> int \<Rightarrow> int \<Rightarrow> error option" where
  "checkBounds m start offset =
     (if start < 0 then Some ErrNegativeStart
      else if int_add start offset > int (length m) then Some ErrOutOfMemoryBound
      else None)"

text \<open>The loop \<^verbatim>\<open>for i := start; i < start+offset; i++\<close> of \<^verbatim>\<open>isEmpty\<close>; \<open>e\<close> is its bound.\<close>

function isEmpty_loop :: "Memory \<Rightarrow> int \<Rightarrow> int \<Rightarrow> bool outcome" where
  "isEmpty_loop m i e =
     (if i < e then
        (case cell m i of
           Panic k \<Rightarrow> Panic k
         | Return c \<Rightarrow> if c \<noteq> None then Return False else isEmpty_loop m (i + 1) e)
      else Return True)"
  by pat_completeness auto
termination
  by (relation "measure (\<lambda>(m, i, e). nat (e - i))") auto

definition isEmpty :: "Memory \<Rightarrow> int \<Rightarrow> int \<Rightarrow> bool outcome" where
  "isEmpty m start offset =
     (case checkBounds m start offset of
        Some err \<Rightarrow> Return False
      | None \<Rightarrow> isEmpty_loop m start (int_add start offset))"

subsection \<open>Allocation\<close>

text \<open>
  The loop of \<^verbatim>\<open>Allocate\<close> that stores the pointer in every cell of the range. The
  memory is returned as the loop leaves it, also when it panics.
\<close>

function Allocate_loop :: "Memory \<Rightarrow> addr \<Rightarrow> int \<Rightarrow> int \<Rightarrow> Memory \<times> unit outcome" where
  "Allocate_loop m p i e =
     (if i < e then
        (if 0 \<le> i \<and> i < int (length m)
         then Allocate_loop (m[nat i := Some p]) p (i + 1) e
         else (m, Panic IndexOutOfRange))
      else (m, Return ()))"
  by pat_completeness auto
termination
  by (relation "measure (\<lambda>(m, p, i, e). nat (e - i))") auto

text \<open>
  \<^verbatim>\<open>Allocate\<close> returns the error (\<open>None\<close> is \<^verbatim>\<open>nil\<close>), and the state as the call
  leaves it.
\<close>

definition Allocate :: "state \<Rightarrow> addr option \<Rightarrow> int \<Rightarrow> state \<times> error option outcome" where
  "Allocate s p start =
     (case p of
        None \<Rightarrow> (s, Return (Some ErrNilProcess))
      | Some a \<Rightarrow>
          if IsAllocated (heap s a) then (s, Return (Some ErrAlreadyInMemory))
          else
            (case checkBounds (mem s) start (SizeInKB (heap s a)) of
               Some err \<Rightarrow> (s, Return (Some err))
             | None \<Rightarrow>
                 (case isEmpty (mem s) start (SizeInKB (heap s a)) of
                    Panic k \<Rightarrow> (s, Panic k)
                  | Return False \<Rightarrow> (s, Return (Some ErrSpaceOccupied))
                  | Return True \<Rightarrow>
                      if ID (heap s a) = [] then (s, Return (Some ErrAllocateNoID))
                      else
                        (case Allocate_loop (mem s) a start (int_add start (SizeInKB (heap s a))) of
                           (m', Panic k) \<Rightarrow> (s\<lparr>mem := m'\<rparr>, Panic k)
                         | (m', Return _) \<Rightarrow>
                             (\<lparr>heap = (heap s)(a := (heap s a)\<lparr>IsAllocated := True, MemoryAddress := start\<rparr>),
                               mem = m'\<rparr>,
                              Return None)))))"

definition AllocateWorstFit :: "state \<Rightarrow> addr option \<Rightarrow> state \<times> error option outcome" where
  "AllocateWorstFit s p =
     (case p of
        None \<Rightarrow> (s, Return (Some ErrNilProcess))
      | Some a \<Rightarrow>
          (case WorstFit (mem s) (SizeInKB (heap s a)) of
             (start, _, Some err) \<Rightarrow> (s, Return (Some err))
           | (start, _, None) \<Rightarrow> Allocate s p start))"

subsection \<open>Release\<close>

function hardRelease_loop :: "Memory \<Rightarrow> int \<Rightarrow> int \<Rightarrow> Memory \<times> unit outcome" where
  "hardRelease_loop m i e =
     (if i < e then
        (if 0 \<le> i \<and> i < int (length m)
         then hardRelease_loop (m[nat i := None]) (i + 1) e
         else (m, Panic IndexOutOfRange))
      else (m, Return ()))"
  by pat_completeness auto
termination
  by (relation "measure (\<lambda>(m, i, e). nat (e - i))") auto

definition hardRelease :: "Memory \<Rightarrow> int \<Rightarrow> int \<Rightarrow> Memory \<times> error option outcome" where
  "hardRelease m start offset =
     (case checkBounds m start offset of
        Some err \<Rightarrow> (m, Return (Some err))
      | None \<Rightarrow>
          (case hardRelease_loop m start (int_add start offset) of
             (m', Panic k) \<Rightarrow> (m', Panic k)
           | (m', Return _) \<Rightarrow> (m', Return None)))"

text \<open>
  The loop of \<^verbatim>\<open>ReleaseProcess\<close>. It leaves by the \<^verbatim>\<open>return false, err\<close> of its body
  (\<open>Inl\<close>), by a panic, or by running to its bound (\<open>Inr\<close>, with the flag
  \<^verbatim>\<open>beenReleased\<close>). \<^verbatim>\<open>m[i].ID\<close> reads a field through the pointer of the cell and
  panics when the cell is nil.
\<close>

function ReleaseProcess_loop ::
  "(addr \<Rightarrow> Process) \<Rightarrow> addr \<Rightarrow> Memory \<Rightarrow> int \<Rightarrow> int \<Rightarrow> bool \<Rightarrow> Memory \<times> (error + bool) outcome" where
  "ReleaseProcess_loop h p m i e beenReleased =
     (if i < e then
        (case cell m i of
           Panic k \<Rightarrow> (m, Panic k)
         | Return None \<Rightarrow> (m, Panic NilDereference)
         | Return (Some q) \<Rightarrow>
             if ID (h q) = ID (h p)
             then ReleaseProcess_loop h p (m[nat i := None]) (i + 1) e True
             else if beenReleased = False then (m, Return (Inl ErrUnsafeDelete))
             else (m, Panic CorruptedMemoryState))
      else (m, Return (Inr beenReleased)))"
  by pat_completeness auto
termination
  by (relation "measure (\<lambda>(h, p, m, i, e, b). nat (e - i))") auto

definition ReleaseProcess :: "state \<Rightarrow> addr option \<Rightarrow> state \<times> (bool \<times> error option) outcome" where
  "ReleaseProcess s p =
     (case p of
        None \<Rightarrow> (s, Panic NilDereference)
      | Some a \<Rightarrow>
          (case checkBounds (mem s) (MemoryAddress (heap s a)) (SizeInKB (heap s a)) of
             Some err \<Rightarrow> (s, Return (False, Some err))
           | None \<Rightarrow>
               if ID (heap s a) = [] then (s, Return (False, Some ErrReleaseNoID))
               else
                 (case ReleaseProcess_loop (heap s) a (mem s) (MemoryAddress (heap s a))
                         (int_add (MemoryAddress (heap s a)) (SizeInKB (heap s a))) False of
                    (m', Panic k) \<Rightarrow> (s\<lparr>mem := m'\<rparr>, Panic k)
                  | (m', Return (Inl err)) \<Rightarrow> (s\<lparr>mem := m'\<rparr>, Return (False, Some err))
                  | (m', Return (Inr released)) \<Rightarrow>
                      (\<lparr>heap = (heap s)(a := (heap s a)\<lparr>IsAllocated := False, MemoryAddress := - 1\<rparr>),
                        mem = m'\<rparr>,
                       Return (released, None)))))"

subsection \<open>Layout and free total\<close>

text \<open>
  \<^verbatim>\<open>currentBlock\<close> always points to the block appended last, so the statement
  \<^verbatim>\<open>currentBlock.Size++\<close> changes the last block of the layout; it panics while
  \<^verbatim>\<open>currentBlock\<close> is still nil, which is while the layout is empty.
\<close>

definition Layout_bump :: "MemoryBlock list \<Rightarrow> bool \<Rightarrow> (MemoryBlock list \<times> bool) outcome" where
  "Layout_bump layout prev =
     (if layout = [] then Panic NilDereference
      else Return (butlast layout @ [(last layout)\<lparr>Size := Size (last layout) + 1\<rparr>], prev))"

text \<open>
  The condition \<^verbatim>\<open>m[i] != nil && i == 0 || m[i-1] != m[i]\<close>: the conjunction binds
  tighter, and \<^verbatim>\<open>m[i-1]\<close> is read unless the conjunction holds. Pointers are compared.
\<close>

definition Layout_starts_nonempty :: "Memory \<Rightarrow> nat \<Rightarrow> bool outcome" where
  "Layout_starts_nonempty m i =
     (if m ! i \<noteq> None \<and> i = 0 then Return True
      else (case cell m (int i - 1) of
              Panic k \<Rightarrow> Panic k
            | Return c \<Rightarrow> Return (c \<noteq> m ! i)))"

definition Layout_step ::
  "(addr \<Rightarrow> Process) \<Rightarrow> Memory \<Rightarrow> (MemoryBlock list \<times> bool) outcome \<Rightarrow> nat
    \<Rightarrow> (MemoryBlock list \<times> bool) outcome" where
  "Layout_step h m st i =
     (case st of
        Panic k \<Rightarrow> Panic k
      | Return (layout, prev) \<Rightarrow>
          if m ! i = None \<and> prev = False
          then Layout_bump (layout @ [\<lparr>Start = int i, Size = 0, Name = FREE_BLOCK\<rparr>]) True
          else
            (case Layout_starts_nonempty m i of
               Panic k \<Rightarrow> Panic k
             | Return True \<Rightarrow>
                 (case m ! i of
                    None \<Rightarrow> Panic NilDereference
                  | Some q \<Rightarrow>
                      Layout_bump (layout @ [\<lparr>Start = int i, Size = 0, Name = Process.Name (h q)\<rparr>]) False)
             | Return False \<Rightarrow> Layout_bump layout prev))"

definition Layout :: "(addr \<Rightarrow> Process) \<Rightarrow> Memory \<Rightarrow> MemoryBlock list outcome" where
  "Layout h m =
     (case foldl (Layout_step h m) (Return ([], False)) [0..<length m] of
        Panic k \<Rightarrow> Panic k
      | Return (layout, prev) \<Rightarrow> Return layout)"

definition TotalFree :: "Memory \<Rightarrow> int" where
  "TotalFree m = foldl (\<lambda>total i. if m ! i = None then total + 1 else total) 0 [0..<length m]"

subsection \<open>Sequences of calls\<close>

text \<open>
  The public operations of the allocator, as a caller issues them one after the other.
  \<open>exec\<close> gives the state after a call that returns without an error, and \<open>None\<close>
  when the call returns an error or panics. \<^verbatim>\<open>HasSpace\<close> and \<^verbatim>\<open>TotalFree\<close> always
  return a value and change nothing.
\<close>

datatype op =
    OpAllocate "addr option" int
  | OpAllocateWorstFit "addr option"
  | OpReleaseProcess "addr option"
  | OpHasSpace int
  | OpWorstFit int
  | OpLayout
  | OpTotalFree

fun exec :: "state \<Rightarrow> op \<Rightarrow> state option" where
  "exec s (OpAllocate p start) =
     (case Allocate s p start of (s', Return None) \<Rightarrow> Some s' | _ \<Rightarrow> None)"
| "exec s (OpAllocateWorstFit p) =
     (case AllocateWorstFit s p of (s', Return None) \<Rightarrow> Some s' | _ \<Rightarrow> None)"
| "exec s (OpReleaseProcess p) =
     (case ReleaseProcess s p of (s', Return (released, None)) \<Rightarrow> Some s' | _ \<Rightarrow> None)"
| "exec s (OpHasSpace n) = Some s"
| "exec s (OpWorstFit n) = (case WorstFit (mem s) n of (_, _, None) \<Rightarrow> Some s | _ \<Rightarrow> None)"
| "exec s OpLayout = (case Layout (heap s) (mem s) of Return _ \<Rightarrow> Some s | Panic _ \<Rightarrow> None)"
| "exec s OpTotalFree = Some s"

fun run :: "state \<Rightarrow> op list \<Rightarrow> state option" where
  "run s [] = Some s"
| "run s (x # xs) = (case exec s x of None \<Rightarrow> None | Some s' \<Rightarrow> run s' xs)"

section \<open>Notions used in the statements\<close>

text \<open>A value of Go's \<^verbatim>\<open>int\<close>.\<close>

definition is_int :: "int \<Rightarrow> bool" where
  "is_int x \<longleftrightarrow> - (2 ^ 63) \<le> x \<and> x \<le> max_int"

text \<open>The memory \<open>m\<close> with the cells from \<open>i\<close> up to, not including, \<open>e\<close> set to \<open>v\<close>.\<close>

definition set_cells :: "Memory \<Rightarrow> int \<Rightarrow> int \<Rightarrow> addr option \<Rightarrow> Memory" where
  "set_cells m i e v = map (\<lambda>j. if i \<le> int j \<and> int j < e then v else m ! j) [0..<length m]"

text \<open>The cell is occupied, and the identity of its owner is that of \<open>p\<close>.\<close>

definition owned_by :: "(addr \<Rightarrow> Process) \<Rightarrow> addr \<Rightarrow> addr option \<Rightarrow> bool" where
  "owned_by h p c = (case c of None \<Rightarrow> False | Some q \<Rightarrow> ID (h q) = ID (h p))"

subsection \<open>Free runs\<close>

text \<open>
  A free run: \<open>l\<close> free cells from cell \<open>s\<close> on, with no free cell next to them on
  either side.
\<close>

definition free_run :: "Memory \<Rightarrow> nat \<Rightarrow> nat \<Rightarrow> bool" where
  "free_run m s l \<longleftrightarrow>
     0 < l \<and> s + l \<le> length m \<and> (\<forall>j \<in> {s..<s + l}. m ! j = None) \<and>
     (s = 0 \<or> m ! (s - 1) \<noteq> None) \<and> (s + l = length m \<or> m ! (s + l) \<noteq> None)"

text \<open>
  The pair \<open>(bs, bl)\<close> is the start and the length of the earliest among the longest of
  the runs that satisfy \<open>R\<close>; it is \<open>(-1, 0)\<close> when no run satisfies \<open>R\<close>.
\<close>

definition best_of :: "(nat \<Rightarrow> nat \<Rightarrow> bool) \<Rightarrow> int \<Rightarrow> int \<Rightarrow> bool" where
  "best_of R bs bl \<longleftrightarrow>
     (if \<exists>s l. R s l
      then 0 \<le> bs \<and> 0 < bl \<and> R (nat bs) (nat bl) \<and>
           (\<forall>s l. R s l \<longrightarrow> int l \<le> bl \<and> (int l = bl \<longrightarrow> bs \<le> int s))
      else bs = - 1 \<and> bl = 0)"

text \<open>
  What the scan of \<^verbatim>\<open>WorstFit\<close> knows after the first \<open>n\<close> cells: the run it is in,
  and the best of the runs that have ended.
\<close>

definition scan_inv :: "Memory \<Rightarrow> nat \<Rightarrow> scan \<Rightarrow> bool" where
  "scan_inv m n s \<longleftrightarrow>
     (previousWasEmpty s \<longleftrightarrow> 0 < n \<and> m ! (n - 1) = None) \<and>
     (previousWasEmpty s \<longrightarrow>
        0 \<le> currentStart s \<and> 0 < currentSize s \<and> currentStart s + currentSize s = int n \<and>
        (\<forall>j \<in> {nat (currentStart s)..<n}. m ! j = None) \<and>
        (currentStart s = 0 \<or> m ! (nat (currentStart s) - 1) \<noteq> None)) \<and>
     (\<not> previousWasEmpty s \<longrightarrow> currentSize s \<le> bestSize s) \<and>
     best_of (\<lambda>a l. free_run m a l \<and> a + l < n) (bestStart s) (bestSize s)"

subsection \<open>Blocks\<close>

text \<open>The name a block takes from its first cell.\<close>

definition block_name :: "(addr \<Rightarrow> Process) \<Rightarrow> addr option \<Rightarrow> string" where
  "block_name h c = (case c of None \<Rightarrow> FREE_BLOCK | Some q \<Rightarrow> Process.Name (h q))"

text \<open>A block starts at cell \<open>i\<close>: the first cell, or a cell whose owner is not that of the cell before.\<close>

definition block_start :: "Memory \<Rightarrow> nat \<Rightarrow> bool" where
  "block_start m i \<longleftrightarrow> i = 0 \<or> m ! (i - 1) \<noteq> m ! i"

text \<open>The blocks of the first \<open>n\<close> cells.\<close>

fun blocks_upto :: "(addr \<Rightarrow> Process) \<Rightarrow> Memory \<Rightarrow> nat \<Rightarrow> MemoryBlock list" where
  "blocks_upto h m 0 = []"
| "blocks_upto h m (Suc n) =
     (if block_start m n
      then blocks_upto h m n @ [\<lparr>Start = int n, Size = 1, Name = block_name h (m ! n)\<rparr>]
      else butlast (blocks_upto h m n) @
           [(last (blocks_upto h m n))\<lparr>Size := Size (last (blocks_upto h m n)) + 1\<rparr>])"

text \<open>
  The blocks \<open>bs\<close> tile the first \<open>n\<close> cells: they start where a block starts, each
  one ends where the next one starts, the last one at \<open>n\<close>, and each is named after its
  first cell.
\<close>

definition tiled :: "Memory \<Rightarrow> (addr \<Rightarrow> Process) \<Rightarrow> nat \<Rightarrow> MemoryBlock list \<Rightarrow> bool" where
  "tiled m h n bs \<longleftrightarrow>
     map Start bs = map int (filter (block_start m) [0..<n]) \<and>
     (\<forall>k < length bs. Start (bs ! k) + Size (bs ! k) =
        (if Suc k < length bs then Start (bs ! Suc k) else int n)) \<and>
     (\<forall>k < length bs. MemoryBlock.Name (bs ! k) = block_name h (m ! nat (Start (bs ! k))))"

subsection \<open>Consistent states\<close>




subsection \<open>The scenarios of the design document\<close>

text \<open>
  An address space of ten cells, all free, and the processes P1 of size 3 and P2 of
  size 4. The document gives no identities; the processes of the scenarios are numbered.
  A process that is not allocated has the address \<open>-1\<close>.
\<close>

definition P1 :: Process where
  "P1 = \<lparr>ID = ''1'', Name = ''P1'', SizeInKB = 3, IsAllocated = False, MemoryAddress = - 1\<rparr>"

definition P2 :: Process where
  "P2 = \<lparr>ID = ''2'', Name = ''P2'', SizeInKB = 4, IsAllocated = False, MemoryAddress = - 1\<rparr>"

definition scenario_heap :: "addr \<Rightarrow> Process" where
  "scenario_heap a = (if a = 0 then P1 else P2)"

definition scenario_start :: state where
  "scenario_start = \<lparr>heap = scenario_heap, mem = replicate 10 None\<rparr>"

text \<open>Scenario A: P1 allocated at 0.\<close>

definition scenario_A :: state where
  "scenario_A =
     \<lparr>heap = scenario_heap(0 := P1\<lparr>IsAllocated := True, MemoryAddress := 0\<rparr>),
      mem = [Some 0, Some 0, Some 0, None, None, None, None, None, None, None]\<rparr>"

text \<open>Scenario E: a process without an identity.\<close>

definition P3 :: Process where
  "P3 = \<lparr>ID = [], Name = ''P3'', SizeInKB = 4, IsAllocated = False, MemoryAddress = - 1\<rparr>"

definition scenario_E :: state where
  "scenario_E = \<lparr>heap = (\<lambda>a. P3), mem = replicate 10 None\<rparr>"


text \<open>
  States whose bookkeeping is stale: scenario A with P2 recording the address 0, where
  P1 lives; the same with the first cell given to P2; and a process that records the
  address 0, the zero value of the field, in a free address space.
\<close>

definition stale_first :: state where
  "stale_first = \<lparr>heap = (heap scenario_A)(Suc 0 := P2\<lparr>MemoryAddress := 0\<rparr>),
                  mem = [Some 0, Some 0, Some 0, None, None, None, None, None, None, None]\<rparr>"

definition stale_later :: state where
  "stale_later = \<lparr>heap = (heap scenario_A)(Suc 0 := P2\<lparr>MemoryAddress := 0\<rparr>),
                  mem = [Some (Suc 0), Some 0, Some 0, None, None, None, None, None, None, None]\<rparr>"

definition scenario_unplaced :: state where
  "scenario_unplaced = \<lparr>heap = (\<lambda>a. P1\<lparr>MemoryAddress := 0\<rparr>), mem = replicate 10 None\<rparr>"

section \<open>Arithmetic and the loops\<close>

declare isEmpty_loop.simps [simp del] Allocate_loop.simps [simp del]
  hardRelease_loop.simps [simp del] ReleaseProcess_loop.simps [simp del]

lemma wrap_int_id: "- (2 ^ 63) \<le> x \<Longrightarrow> x \<le> max_int \<Longrightarrow> wrap_int x = x"
  by (simp add: wrap_int_def max_int_def)

lemma int_add_id: "- (2 ^ 63) \<le> a + b \<Longrightarrow> a + b \<le> max_int \<Longrightarrow> int_add a b = a + b"
  by (simp add: int_add_def wrap_int_id)

lemma no_wrap:
  "is_int b \<Longrightarrow> a + b \<le> max_int \<Longrightarrow> 0 \<le> a \<Longrightarrow> int_add a b = a + b"
  by (rule int_add_id) (auto simp: is_int_def)

text \<open>
  The loops never index outside the slice: their range starts at a non-negative index
  and ends at most at the length. \<open>isEmpty_loop\<close> answers whether the range is free.
\<close>

lemma isEmpty_loop_eq:
  "0 \<le> i \<Longrightarrow> e \<le> int (length m) \<Longrightarrow>
   isEmpty_loop m i e = Return (\<forall>j. i \<le> int j \<and> int j < e \<longrightarrow> m ! j = None)"
proof (induction m i e rule: isEmpty_loop.induct)
  case (1 m i e)
  show ?case
  proof (cases "i < e")
    case False
    then show ?thesis by (subst isEmpty_loop.simps) auto
  next
    case True
    with 1 have c: "cell m i = Return (m ! nat i)" by (simp add: cell_def)
    show ?thesis
    proof (cases "m ! nat i")
      case None
      have ih: "isEmpty_loop m (i + 1) e = Return (\<forall>j. i + 1 \<le> int j \<and> int j < e \<longrightarrow> m ! j = None)"
        using 1 True c None by simp
      have "(\<forall>j. i \<le> int j \<and> int j < e \<longrightarrow> m ! j = None) = (\<forall>j. i + 1 \<le> int j \<and> int j < e \<longrightarrow> m ! j = None)"
      proof (intro iffI allI impI)
        fix j assume a: "\<forall>j. i \<le> int j \<and> int j < e \<longrightarrow> m ! j = None" "i + 1 \<le> int j \<and> int j < e"
        then show "m ! j = None" by simp
      next
        fix j assume a: "\<forall>j. i + 1 \<le> int j \<and> int j < e \<longrightarrow> m ! j = None" "i \<le> int j \<and> int j < e"
        show "m ! j = None"
        proof (cases "int j = i")
          case True
          then have "j = nat i" by simp
          then show ?thesis using None by simp
        next
          case False
          then show ?thesis using a by simp
        qed
      qed
      then show ?thesis using True c None ih by (subst isEmpty_loop.simps) simp
    next
      case (Some q)
      have "i \<le> int (nat i) \<and> int (nat i) < e" using 1 True by simp
      then have "\<not> (\<forall>j. i \<le> int j \<and> int j < e \<longrightarrow> m ! j = None)" using Some by (metis option.distinct(1))
      then show ?thesis using True c Some by (subst isEmpty_loop.simps) simp
    qed
  qed
qed

lemma length_set_cells [simp]: "length (set_cells m i e v) = length m"
  by (simp add: set_cells_def)

lemma nth_set_cells [simp]:
  "j < length m \<Longrightarrow> set_cells m i e v ! j = (if i \<le> int j \<and> int j < e then v else m ! j)"
  by (simp add: set_cells_def)

lemma set_cells_empty [simp]: "e \<le> i \<Longrightarrow> set_cells m i e v = m"
  by (rule nth_equalityI) auto

lemma set_cells_step:
  "0 \<le> i \<Longrightarrow> i < e \<Longrightarrow> set_cells (m[nat i := v]) (i + 1) e v = set_cells m i e v"
  by (rule nth_equalityI) (auto simp: nth_list_update)

lemma Allocate_loop_eq:
  "0 \<le> i \<Longrightarrow> e \<le> int (length m) \<Longrightarrow>
   Allocate_loop m p i e = (set_cells m i e (Some p), Return ())"
proof (induction m p i e rule: Allocate_loop.induct)
  case (1 m p i e)
  show ?case
  proof (cases "i < e")
    case False
    then show ?thesis by (subst Allocate_loop.simps) simp
  next
    case True
    have "Allocate_loop m p i e = Allocate_loop (m[nat i := Some p]) p (i + 1) e"
      using True 1(2,3) by (subst Allocate_loop.simps) simp
    also have "\<dots> = (set_cells (m[nat i := Some p]) (i + 1) e (Some p), Return ())"
      using True 1 by simp
    finally show ?thesis using True 1(2) by (simp add: set_cells_step)
  qed
qed


lemma ReleaseProcess_loop_stops:
  "0 \<le> i \<Longrightarrow> e \<le> int (length m) \<Longrightarrow> i \<le> int k \<Longrightarrow> int k < e \<Longrightarrow>
   (\<forall>j. i \<le> int j \<and> j < k \<longrightarrow> owned_by h p (m ! j)) \<Longrightarrow>
   \<not> owned_by h p (m ! k) \<Longrightarrow>
   ReleaseProcess_loop h p m i e b =
     (set_cells m i (int k) None,
      if m ! k = None then Panic NilDereference
      else if b \<or> i < int k then Panic CorruptedMemoryState
      else Return (Inl ErrUnsafeDelete))"
proof (induction h p m i e b rule: ReleaseProcess_loop.induct)
  case (1 h p m i e b)
  have ie: "i < e" using 1 by simp
  have c: "cell m i = Return (m ! nat i)" using ie 1(2,3) by (simp add: cell_def)
  show ?case
  proof (cases "int k = i")
    case True
    then have k: "nat i = k" by simp
    show ?thesis
      using ie c k 1(7) True
      by (subst ReleaseProcess_loop.simps) (auto simp: owned_by_def split: option.splits)
  next
    case False
    then have lt: "i < int k" using 1(4) by simp
    then have "owned_by h p (m ! nat i)" using 1(6) 1(2) by simp
    then obtain q where q: "m ! nat i = Some q" "ID (h q) = ID (h p)"
      by (auto simp: owned_by_def split: option.splits)
    have rest: "\<forall>j. i + 1 \<le> int j \<and> j < k \<longrightarrow> owned_by h p (m[nat i := None] ! j)"
      using 1(6) 1(2) by (auto simp: nth_list_update)
    have nk: "m[nat i := None] ! k = m ! k" using lt 1(2) by (simp add: nth_list_update)
    have "ReleaseProcess_loop h p m i e b = ReleaseProcess_loop h p (m[nat i := None]) (i + 1) e True"
      using ie c q by (subst ReleaseProcess_loop.simps) simp
    also have "\<dots> = (set_cells (m[nat i := None]) (i + 1) (int k) None,
      if m[nat i := None] ! k = None then Panic NilDereference
      else if True \<or> i + 1 < int k then Panic CorruptedMemoryState
      else Return (Inl ErrUnsafeDelete))"
      using "1.IH" [OF ie c q(1) q(2)] 1(2,3,5) lt rest nk 1(7) by simp
    finally show ?thesis using lt 1(2) nk by (simp add: set_cells_step)
  qed
qed


section \<open>Allocation\<close>

lemma checkBounds_eq:
  "is_int offset \<Longrightarrow> start + offset \<le> max_int \<Longrightarrow>
   checkBounds m start offset =
     (if start < 0 then Some ErrNegativeStart
      else if int (length m) < start + offset then Some ErrOutOfMemoryBound
      else None)"
  by (simp add: checkBounds_def no_wrap)

lemma checkBounds_kind: "checkBounds m start offset = Some err \<Longrightarrow> kind err = OutOfBounds"
  by (auto simp: checkBounds_def split: if_splits)

lemma isEmpty_eq:
  "is_int offset \<Longrightarrow> start + offset \<le> max_int \<Longrightarrow> checkBounds m start offset = None \<Longrightarrow>
   isEmpty m start offset = Return (\<forall>j. start \<le> int j \<and> int j < start + offset \<longrightarrow> m ! j = None)"
  by (auto simp: isEmpty_def checkBounds_eq no_wrap isEmpty_loop_eq split: if_splits)

text \<open>\<^verbatim>\<open>Allocate\<close> without its loops, for a sum \<^verbatim>\<open>start+p.SizeInKB\<close> that is an int.\<close>

lemma Allocate_eq:
  assumes "is_int (SizeInKB (heap s a))" and "start + SizeInKB (heap s a) \<le> max_int"
  shows "Allocate s (Some a) start =
     (if IsAllocated (heap s a) then (s, Return (Some ErrAlreadyInMemory))
      else if start < 0 then (s, Return (Some ErrNegativeStart))
      else if int (length (mem s)) < start + SizeInKB (heap s a) then (s, Return (Some ErrOutOfMemoryBound))
      else if \<exists>j. start \<le> int j \<and> int j < start + SizeInKB (heap s a) \<and> mem s ! j \<noteq> None
        then (s, Return (Some ErrSpaceOccupied))
      else if ID (heap s a) = [] then (s, Return (Some ErrAllocateNoID))
      else (\<lparr>heap = (heap s)(a := (heap s a)\<lparr>IsAllocated := True, MemoryAddress := start\<rparr>),
             mem = set_cells (mem s) start (start + SizeInKB (heap s a)) (Some a)\<rparr>, Return None))"
proof -
  let ?n = "SizeInKB (heap s a)"
  define occ where "occ \<longleftrightarrow> (\<exists>j. start \<le> int j \<and> int j < start + ?n \<and> mem s ! j \<noteq> None)"
  note cb = checkBounds_eq [OF assms, of "mem s"]
  have goal: "Allocate s (Some a) start =
     (if IsAllocated (heap s a) then (s, Return (Some ErrAlreadyInMemory))
      else if start < 0 then (s, Return (Some ErrNegativeStart))
      else if int (length (mem s)) < start + ?n then (s, Return (Some ErrOutOfMemoryBound))
      else if occ then (s, Return (Some ErrSpaceOccupied))
      else if ID (heap s a) = [] then (s, Return (Some ErrAllocateNoID))
      else (\<lparr>heap = (heap s)(a := (heap s a)\<lparr>IsAllocated := True, MemoryAddress := start\<rparr>),
             mem = set_cells (mem s) start (start + ?n) (Some a)\<rparr>, Return None))"
  proof (cases "checkBounds (mem s) start ?n")
    case (Some err)
    then show ?thesis using cb by (auto simp: Allocate_def split: if_splits)
  next
    case None
    then have b: "0 \<le> start" "start + ?n \<le> int (length (mem s))"
      using cb by (auto split: if_splits)
    have "isEmpty (mem s) start ?n = Return (\<forall>j. start \<le> int j \<and> int j < start + ?n \<longrightarrow> mem s ! j = None)"
      using isEmpty_eq [OF assms None] .
    also have "(\<forall>j. start \<le> int j \<and> int j < start + ?n \<longrightarrow> mem s ! j = None) = (\<not> occ)"
      unfolding occ_def by auto
    finally have e: "isEmpty (mem s) start ?n = Return (\<not> occ)" .
    have l: "Allocate_loop (mem s) a start (int_add start ?n) = (set_cells (mem s) start (start + ?n) (Some a), Return ())"
      using b assms by (simp add: no_wrap Allocate_loop_eq)
    show ?thesis unfolding Allocate_def using None e b l by (cases occ) simp_all
  qed
  show ?thesis using goal unfolding occ_def .
qed



lemma upt_10: "[0..<10] = [0, 1, 2, 3, 4, 5, 6, 7, 8, 9]"
  by (simp add: upt_conv_Cons)

lemma replicate_10: "replicate 10 x = [x, x, x, x, x, x, x, x, x, x]"
  by (simp add: numeral_eq_Suc)

lemma scenario_A_eq: "Allocate scenario_start (Some 0) 0 = (scenario_A, Return None)"
proof -
  have i: "is_int (SizeInKB (heap scenario_start 0))"
    by (simp add: scenario_start_def scenario_heap_def P1_def is_int_def max_int_def)
  have o: "0 + SizeInKB (heap scenario_start 0) \<le> max_int"
    by (simp add: scenario_start_def scenario_heap_def P1_def max_int_def)
  have free: "\<not> (\<exists>j. 0 \<le> int j \<and> int j < 0 + SizeInKB (heap scenario_start 0) \<and> mem scenario_start ! j \<noteq> None)"
    by (auto simp: scenario_start_def scenario_heap_def P1_def)
  have cells: "set_cells (replicate 10 None) 0 3 (Some 0) =
      [Some 0, Some 0, Some 0, None, None, None, None, None, None, None]"
    by (simp add: set_cells_def upt_10 replicate_10)
  show ?thesis
    unfolding Allocate_eq [OF i o] using free cells
    by (simp add: scenario_start_def scenario_heap_def P1_def scenario_A_def)
qed



text \<open>
  Claim C6, amended. For a process that is not nil and not allocated, \<^verbatim>\<open>Allocate\<close>
  returns an OutOfBounds error and leaves the state as it is whenever \<open>start < 0\<close> or
  \<open>start + SizeInKB\<close> exceeds the length of the memory, where the size is an int and the
  sum does not exceed the largest int.
\<close>

theorem Allocate_out_of_bounds:
  assumes "\<not> IsAllocated (heap s a)"
    and "is_int (SizeInKB (heap s a))"
    and "start + SizeInKB (heap s a) \<le> max_int"
    and "start < 0 \<or> int (length (mem s)) < start + SizeInKB (heap s a)"
  shows "\<exists>err. Allocate s (Some a) start = (s, Return (Some err)) \<and> kind err = OutOfBounds"
  using assms(1,4) unfolding Allocate_eq [OF assms(2,3)] by auto

text \<open>P1 at 8 in the free address space of ten cells: 8 + 3 exceeds 10.\<close>

theorem Allocate_out_of_bounds_witness:
  "\<exists>err. Allocate scenario_start (Some 0) 8 = (scenario_start, Return (Some err)) \<and> kind err = OutOfBounds"
  using Allocate_out_of_bounds [of scenario_start 0 8]
  by (simp add: scenario_start_def scenario_heap_def P1_def is_int_def max_int_def)

text \<open>
  The claim as it was stated fails for a process that is allocated already: in scenario A,
  placing P1 again at the negative start \<open>-1\<close> is refused as AlreadyAllocated, the check
  that comes before the bounds check.
\<close>

theorem Allocate_out_of_bounds_counterexample:
  "(- 1 :: int) < 0 \<and>
   Allocate scenario_A (Some 0) (- 1) = (scenario_A, Return (Some ErrAlreadyInMemory)) \<and>
   kind ErrAlreadyInMemory \<noteq> OutOfBounds"
  by (simp add: Allocate_def scenario_A_def)

text \<open>
  \<^verbatim>\<open>Allocate\<close> never panics, whatever the process and the start: its loops stay inside
  the slice.
\<close>

theorem Allocate_never_panics: "\<exists>s' err. Allocate s p start = (s', Return err)"
proof (cases p)
  case None
  then show ?thesis by (simp add: Allocate_def)
next
  case (Some a)
  let ?n = "SizeInKB (heap s a)"
  show ?thesis
  proof (cases "checkBounds (mem s) start ?n")
    case (Some err)
    then show ?thesis using \<open>p = Some a\<close> by (simp add: Allocate_def)
  next
    case None
    then have b: "0 \<le> start" "int_add start ?n \<le> int (length (mem s))"
      by (auto simp: checkBounds_def split: if_splits)
    have e: "isEmpty (mem s) start ?n =
        Return (\<forall>j. start \<le> int j \<and> int j < int_add start ?n \<longrightarrow> mem s ! j = None)"
      using None isEmpty_loop_eq [OF b] by (simp add: isEmpty_def)
    have l: "Allocate_loop (mem s) a start (int_add start ?n) =
        (set_cells (mem s) start (int_add start ?n) (Some a), Return ())"
      using Allocate_loop_eq [OF b] .
    show ?thesis
      unfolding \<open>p = Some a\<close> Allocate_def using None e l
      by (cases "\<forall>j. start \<le> int j \<and> int j < int_add start ?n \<longrightarrow> mem s ! j = None") simp_all
  qed
qed

text \<open>
  The sum of the bounds check wraps around. P1, of size 3, placed at the start
  \<open>2\<^sup>6\<^sup>3 - 3\<close> in the address space of ten cells passes the check, since the sum is
  \<open>-2\<^sup>6\<^sup>3\<close>; the process is marked allocated there and no cell is written.
\<close>

theorem Allocate_sum_wraps:
  "Allocate scenario_start (Some 0) (max_int - 2) =
     (\<lparr>heap = scenario_heap(0 := P1\<lparr>IsAllocated := True, MemoryAddress := max_int - 2\<rparr>),
       mem = replicate 10 None\<rparr>,
      Return None)"
proof -
  have w: "int_add (max_int - 2) 3 = - (2 ^ 63)"
    by (simp add: int_add_def wrap_int_def max_int_def)
  have lt: "\<not> max_int - 2 < - (2 ^ 63)" by (simp add: max_int_def)
  have pos: "\<not> max_int - 2 < 0" by (simp add: max_int_def)
  have e: "isEmpty (replicate 10 None) (max_int - 2) 3 = Return True"
    using w lt pos by (simp add: isEmpty_def checkBounds_def isEmpty_loop.simps [of _ "max_int - 2"])
  have l: "Allocate_loop (replicate 10 None) 0 (max_int - 2) (- (2 ^ 63)) = (replicate 10 None, Return ())"
    using lt by (simp add: Allocate_loop.simps [of _ _ "max_int - 2"])
  show ?thesis
    using w lt pos e l
    by (simp add: Allocate_def scenario_start_def scenario_heap_def P1_def checkBounds_def)
qed

section \<open>Release\<close>

lemma ReleaseProcess_bounds:
  assumes "0 \<le> MemoryAddress (heap s a)"
    and "MemoryAddress (heap s a) + SizeInKB (heap s a) \<le> int (length (mem s))"
    and "int (length (mem s)) \<le> max_int"
    and "0 \<le> SizeInKB (heap s a)"
  shows "checkBounds (mem s) (MemoryAddress (heap s a)) (SizeInKB (heap s a)) = None"
    and "int_add (MemoryAddress (heap s a)) (SizeInKB (heap s a)) =
         MemoryAddress (heap s a) + SizeInKB (heap s a)"
proof -
  have i: "is_int (SizeInKB (heap s a))" using assms by (simp add: is_int_def)
  have o: "MemoryAddress (heap s a) + SizeInKB (heap s a) \<le> max_int" using assms by simp
  show "checkBounds (mem s) (MemoryAddress (heap s a)) (SizeInKB (heap s a)) = None"
    using assms by (simp add: checkBounds_eq [OF i o])
  show "int_add (MemoryAddress (heap s a)) (SizeInKB (heap s a)) =
         MemoryAddress (heap s a) + SizeInKB (heap s a)"
    using no_wrap [OF i o] assms by simp
qed

lemma ReleaseProcess_stops:
  assumes "0 \<le> MemoryAddress (heap s a)"
    and "MemoryAddress (heap s a) + SizeInKB (heap s a) \<le> int (length (mem s))"
    and "int (length (mem s)) \<le> max_int"
    and "ID (heap s a) \<noteq> []"
    and "MemoryAddress (heap s a) \<le> int k"
    and "int k < MemoryAddress (heap s a) + SizeInKB (heap s a)"
    and "\<forall>j. MemoryAddress (heap s a) \<le> int j \<and> j < k \<longrightarrow> owned_by (heap s) a (mem s ! j)"
    and "\<not> owned_by (heap s) a (mem s ! k)"
  shows "ReleaseProcess s (Some a) =
     (if mem s ! k = None
      then (s\<lparr>mem := set_cells (mem s) (MemoryAddress (heap s a)) (int k) None\<rparr>, Panic NilDereference)
      else if MemoryAddress (heap s a) < int k
      then (s\<lparr>mem := set_cells (mem s) (MemoryAddress (heap s a)) (int k) None\<rparr>, Panic CorruptedMemoryState)
      else (s, Return (False, Some ErrUnsafeDelete)))"
proof -
  have n: "0 \<le> SizeInKB (heap s a)" using assms by simp
  note b = ReleaseProcess_bounds [OF assms(1,2,3) n]
  note l = ReleaseProcess_loop_stops [OF assms(1) assms(2) assms(5) assms(6) assms(7) assms(8), of False]
  show ?thesis
    unfolding ReleaseProcess_def using b l assms(4,5) by auto
qed



text \<open>
  Claim C2. Let the recorded range of a process with an identity lie inside the memory,
  and let cell \<open>k\<close> of the range be the first whose owner has another identity, every
  cell of the range before \<open>k\<close> being owned under the identity of the process. When \<open>k\<close>
  is the first cell of the range, \<^verbatim>\<open>ReleaseProcess\<close> returns \<open>false\<close> and the
  UnsafeRelease error, and the state is the one before the call. When \<open>k\<close> comes later,
  \<^verbatim>\<open>ReleaseProcess\<close> panics (CorruptedMemoryState), having cleared the cells before \<open>k\<close>.
\<close>

theorem ReleaseProcess_owner_mismatch:
  assumes "0 \<le> MemoryAddress (heap s a)"
    and "MemoryAddress (heap s a) + SizeInKB (heap s a) \<le> int (length (mem s))"
    and "int (length (mem s)) \<le> max_int"
    and "ID (heap s a) \<noteq> []"
    and "MemoryAddress (heap s a) \<le> int k"
    and "int k < MemoryAddress (heap s a) + SizeInKB (heap s a)"
    and "\<forall>j. MemoryAddress (heap s a) \<le> int j \<and> j < k \<longrightarrow>
           (\<exists>q. mem s ! j = Some q \<and> ID (heap s q) = ID (heap s a))"
    and "mem s ! k = Some q"
    and "ID (heap s q) \<noteq> ID (heap s a)"
  shows "ReleaseProcess s (Some a) =
     (if int k = MemoryAddress (heap s a)
      then (s, Return (False, Some ErrUnsafeDelete))
      else (s\<lparr>mem := set_cells (mem s) (MemoryAddress (heap s a)) (int k) None\<rparr>,
            Panic CorruptedMemoryState)) \<and>
     kind ErrUnsafeDelete = UnsafeRelease"
proof -
  have own: "\<forall>j. MemoryAddress (heap s a) \<le> int j \<and> j < k \<longrightarrow> owned_by (heap s) a (mem s ! j)"
    using assms(7) by (auto simp: owned_by_def)
  have no: "\<not> owned_by (heap s) a (mem s ! k)" using assms(8,9) by (simp add: owned_by_def)
  show ?thesis
    using ReleaseProcess_stops [OF assms(1,2,3,4,5,6) own no] assms(5,8) by auto
qed

text \<open>
  P2 records the address 0. With P1 in cells 0 to 2 its release is refused; with cell 0
  given to P2 and cell 1 to P1 the release clears cell 0 and panics.
\<close>

theorem ReleaseProcess_owner_mismatch_witness:
  "ReleaseProcess stale_first (Some (Suc 0)) = (stale_first, Return (False, Some ErrUnsafeDelete)) \<and>
   ReleaseProcess stale_later (Some (Suc 0)) =
     (stale_later\<lparr>mem := [None, Some 0, Some 0, None, None, None, None, None, None, None]\<rparr>,
      Panic CorruptedMemoryState)"
proof -
  have 1: "ReleaseProcess stale_first (Some (Suc 0)) = (stale_first, Return (False, Some ErrUnsafeDelete))"
    using ReleaseProcess_owner_mismatch [of stale_first "Suc 0" 0 0]
    by (simp add: stale_first_def scenario_A_def scenario_heap_def P1_def P2_def max_int_def)
  have cells: "set_cells [Some (Suc 0), Some 0, Some 0, None, None, None, None, None, None, None] 0 1 None
     = [None, Some 0, Some 0, None, None, None, None, None, None, None]"
    by (simp add: set_cells_def upt_10)
  have 2: "ReleaseProcess stale_later (Some (Suc 0)) =
     (stale_later\<lparr>mem := [None, Some 0, Some 0, None, None, None, None, None, None, None]\<rparr>,
      Panic CorruptedMemoryState)"
    using ReleaseProcess_owner_mismatch [of stale_later "Suc 0" 1 0] cells
    by (simp add: stale_later_def scenario_A_def scenario_heap_def P1_def P2_def max_int_def)
  show ?thesis using 1 2 by simp
qed

text \<open>
  Claim C5, amended. For a process whose identity is empty, \<^verbatim>\<open>ReleaseProcess\<close> returns
  \<open>false\<close> and an error, and leaves the state as it is. The error is MissingIdentity when
  the recorded range passes the bounds check, and OutOfBounds when it does not: the
  bounds are checked first.
\<close>

theorem ReleaseProcess_empty_identity:
  assumes "ID (heap s a) = []"
  shows "\<exists>err. ReleaseProcess s (Some a) = (s, Return (False, Some err)) \<and>
     kind err =
       (if checkBounds (mem s) (MemoryAddress (heap s a)) (SizeInKB (heap s a)) = None
        then MissingIdentity else OutOfBounds)"
proof (cases "checkBounds (mem s) (MemoryAddress (heap s a)) (SizeInKB (heap s a))")
  case None
  then show ?thesis using assms by (simp add: ReleaseProcess_def)
next
  case (Some err)
  then show ?thesis using checkBounds_kind [OF Some] by (simp add: ReleaseProcess_def)
qed

text \<open>The process without an identity, with the recorded address 0.\<close>

theorem ReleaseProcess_empty_identity_witness:
  "\<exists>err. ReleaseProcess (scenario_E\<lparr>heap := (heap scenario_E)(0 := P3\<lparr>MemoryAddress := 0\<rparr>)\<rparr>) (Some 0) =
       (scenario_E\<lparr>heap := (heap scenario_E)(0 := P3\<lparr>MemoryAddress := 0\<rparr>)\<rparr>, Return (False, Some err)) \<and>
     kind err = MissingIdentity"
  using ReleaseProcess_empty_identity [of "scenario_E\<lparr>heap := (heap scenario_E)(0 := P3\<lparr>MemoryAddress := 0\<rparr>)\<rparr>" 0]
  by (simp add: scenario_E_def P3_def checkBounds_def int_add_def wrap_int_def)

text \<open>
  The claim as it was stated fails in scenario E: the process without an identity is not
  allocated, its address is \<open>-1\<close>, and the release fails with the OutOfBounds error of
  the negative start.
\<close>

theorem ReleaseProcess_empty_identity_counterexample:
  "ID (heap scenario_E 0) = [] \<and>
   ReleaseProcess scenario_E (Some 0) = (scenario_E, Return (False, Some ErrNegativeStart)) \<and>
   kind ErrNegativeStart \<noteq> MissingIdentity"
  by (simp add: scenario_E_def P3_def ReleaseProcess_def checkBounds_def)

text \<open>
  Claim C10. The claim is that the scan of \<^verbatim>\<open>ReleaseProcess\<close> reads the identity of
  occupied cells only, for every memory and every process with an identity whose recorded
  range passes the bounds check. The code reads \<^verbatim>\<open>m[i].ID\<close> with no test for nil:
  for a process that records the address 0 in a free address space, the identity is not
  empty, the bounds check passes, and the first iteration panics on the nil cell.
\<close>

theorem ReleaseProcess_free_cell_panics:
  "ID (heap scenario_unplaced 0) \<noteq> [] \<and>
   checkBounds (mem scenario_unplaced) (MemoryAddress (heap scenario_unplaced 0))
     (SizeInKB (heap scenario_unplaced 0)) = None \<and>
   ReleaseProcess scenario_unplaced (Some 0) = (scenario_unplaced, Panic NilDereference)"
  by (simp add: scenario_unplaced_def P1_def ReleaseProcess_def checkBounds_def int_add_def wrap_int_def
      ReleaseProcess_loop.simps [of _ _ _ 0] cell_def)

section \<open>The worst-fit search\<close>

lemma free_run_same_end:
  assumes "free_run m s l" "free_run m s' l'" "s + l = s' + l'"
  shows "s = s' \<and> l = l'"
proof -
  have aux: "False" if a: "free_run m x k" and b: "free_run m y k'" and e: "x + k = y + k'" and lt: "x < y" for x y k k'
  proof -
    from b lt have "m ! (y - 1) \<noteq> None" by (auto simp: free_run_def)
    moreover have "y - 1 \<in> {x..<x + k}" using lt e b by (auto simp: free_run_def)
    ultimately show False using a by (auto simp: free_run_def)
  qed
  have "s = s'"
  proof (rule ccontr)
    assume "s \<noteq> s'"
    then consider "s < s'" | "s' < s" by linarith
    then show False using aux assms by (metis)
  qed
  then show ?thesis using assms(3) by simp
qed

lemma free_run_before:
  assumes "free_run m s l" "s + l < n" "n \<le> length m" "\<forall>j \<in> {c..<n}. m ! j = None"
  shows "s + l < c"
proof (rule ccontr)
  assume "\<not> s + l < c"
  then have "s + l \<in> {c..<n}" using assms(2) by simp
  then have "m ! (s + l) = None" using assms(4) by blast
  then show False using assms(1,2,3) by (auto simp: free_run_def)
qed


lemma best_of_same: "(\<And>s l. R' s l = R s l) \<Longrightarrow> best_of R bs bl \<Longrightarrow> best_of R' bs bl"
  by (simp add: best_of_def)

lemma best_of_add:
  assumes b: "best_of R bs bl"
    and new: "\<And>s l. R' s l \<longleftrightarrow> R s l \<or> (s = c \<and> l = k)"
    and k: "0 < k"
    and before: "\<And>s l. R s l \<Longrightarrow> s < c"
  shows "best_of R' (if int k > bl then int c else bs) (if int k > bl then int k else bl)"
proof (cases "\<exists>s l. R s l")
  case False
  then have "bs = - 1" "bl = 0" using b by (auto simp: best_of_def)
  moreover have "R' s l \<longleftrightarrow> s = c \<and> l = k" for s l using new False by auto
  ultimately show ?thesis using k by (auto simp: best_of_def)
next
  case True
  then have old: "0 \<le> bs" "0 < bl" "R (nat bs) (nat bl)"
    "\<And>s l. R s l \<Longrightarrow> int l \<le> bl \<and> (int l = bl \<longrightarrow> bs \<le> int s)"
    using b by (auto simp: best_of_def)
  have ex: "\<exists>s l. R' s l" using new by blast
  have lt: "bs < int c" using before [OF old(3)] old(1) by simp
  show ?thesis
  proof (cases "int k > bl")
    case True
    have "R' (nat (int c)) (nat (int k))" using new by simp
    moreover have "\<forall>s l. R' s l \<longrightarrow> int l \<le> int k \<and> (int l = int k \<longrightarrow> int c \<le> int s)"
      using new old(4) True by fastforce
    ultimately show ?thesis using True ex k unfolding best_of_def by simp
  next
    case False
    have "R' (nat bs) (nat bl)" using new old(3) by simp
    moreover have "\<forall>s l. R' s l \<longrightarrow> int l \<le> bl \<and> (int l = bl \<longrightarrow> bs \<le> int s)"
      using new old(4) False lt by fastforce
    ultimately show ?thesis using False ex old(1,2) unfolding best_of_def by simp
  qed
qed

lemma scan_inv_init: "scan_inv m 0 WorstFit_init"
  by (simp add: scan_inv_def WorstFit_init_def best_of_def)

lemma scan_inv_step:
  assumes inv: "scan_inv m n s" and n: "n < length m"
  shows "scan_inv m (Suc n) (WorstFit_step m s n)"
proof (cases "m ! n")
  case None
  have same: "(free_run m a l \<and> a + l < Suc n) = (free_run m a l \<and> a + l < n)" for a l
    using None n by (auto simp: free_run_def less_Suc_eq)
  have best: "best_of (\<lambda>a l. free_run m a l \<and> a + l < Suc n) (bestStart s) (bestSize s)"
    using inv same by (simp add: scan_inv_def)
  show ?thesis
  proof (cases "previousWasEmpty s")
    case True
    then have c: "0 \<le> currentStart s" "0 < currentSize s" "currentStart s + currentSize s = int n"
      "\<forall>j \<in> {nat (currentStart s)..<n}. m ! j = None"
      "currentStart s = 0 \<or> m ! (nat (currentStart s) - 1) \<noteq> None"
      using inv by (auto simp: scan_inv_def)
    have "\<forall>j \<in> {nat (currentStart s)..<Suc n}. m ! j = None"
      using c(4) None by (auto simp: less_Suc_eq)
    then show ?thesis
      using True None c best unfolding scan_inv_def WorstFit_step_def by simp
  next
    case False
    then have "n = 0 \<or> m ! (n - 1) \<noteq> None" using inv by (auto simp: scan_inv_def)
    then show ?thesis
      using False None best unfolding scan_inv_def WorstFit_step_def by auto
  qed
next
  case (Some q)
  show ?thesis
  proof (cases "previousWasEmpty s")
    case False
    then have prev: "n = 0 \<or> m ! (n - 1) \<noteq> None" and le: "currentSize s \<le> bestSize s"
      using inv by (auto simp: scan_inv_def)
    have same: "(free_run m a l \<and> a + l < Suc n) = (free_run m a l \<and> a + l < n)" for a l
    proof -
      have "\<not> (free_run m a l \<and> a + l = n)"
      proof
        assume r: "free_run m a l \<and> a + l = n"
        then have "n - 1 \<in> {a..<a + l}" "0 < n" by (auto simp: free_run_def)
        then have "m ! (n - 1) = None" "0 < n" using r by (auto simp: free_run_def)
        then show False using prev by simp
      qed
      then show ?thesis by (auto simp: less_Suc_eq)
    qed
    have best: "best_of (\<lambda>a l. free_run m a l \<and> a + l < Suc n) (bestStart s) (bestSize s)"
      using inv same by (simp add: scan_inv_def)
    show ?thesis
      using False Some best le unfolding scan_inv_def WorstFit_step_def by simp
  next
    case True
    then have c: "0 \<le> currentStart s" "0 < currentSize s" "currentStart s + currentSize s = int n"
      "\<forall>j \<in> {nat (currentStart s)..<n}. m ! j = None"
      "currentStart s = 0 \<or> m ! (nat (currentStart s) - 1) \<noteq> None"
      using inv by (auto simp: scan_inv_def)
    define c0 where "c0 = nat (currentStart s)"
    define k where "k = nat (currentSize s)"
    have ck: "int c0 = currentStart s" "int k = currentSize s" "0 < k" "c0 + k = n"
      using c by (auto simp: c0_def k_def)
    have run: "free_run m c0 k"
      using c ck Some n unfolding free_run_def c0_def [symmetric] by auto
    have new: "(free_run m a l \<and> a + l < Suc n) \<longleftrightarrow> (free_run m a l \<and> a + l < n) \<or> (a = c0 \<and> l = k)" for a l
      using run ck free_run_same_end [of m a l c0 k] by (auto simp: less_Suc_eq)
    have before: "a < c0" if "free_run m a l \<and> a + l < n" for a l
      using free_run_before [of m a l n c0] that c(4) n by (auto simp: c0_def)
    have old: "best_of (\<lambda>a l. free_run m a l \<and> a + l < n) (bestStart s) (bestSize s)"
      using inv by (simp add: scan_inv_def)
    note upd = best_of_add [OF old new ck(3) before]
    show ?thesis
      using True Some upd ck unfolding scan_inv_def WorstFit_step_def by auto
  qed
qed

lemma scan_inv_foldl:
  "n \<le> length m \<Longrightarrow> scan_inv m n (foldl (WorstFit_step m) WorstFit_init [0..<n])"
proof (induction n)
  case 0
  show ?case by (simp add: scan_inv_init)
next
  case (Suc n)
  then show ?case by (simp add: scan_inv_step)
qed

lemma WorstFit_final_best:
  assumes inv: "scan_inv m (length m) s"
  shows "best_of (free_run m) (bestStart (WorstFit_final s)) (bestSize (WorstFit_final s))"
proof (cases "previousWasEmpty s")
  case False
  then have prev: "length m = 0 \<or> m ! (length m - 1) \<noteq> None" and le: "currentSize s \<le> bestSize s"
    using inv by (auto simp: scan_inv_def)
  have same: "free_run m a l = (free_run m a l \<and> a + l < length m)" for a l
  proof -
    have "\<not> (free_run m a l \<and> a + l = length m)"
    proof
      assume r: "free_run m a l \<and> a + l = length m"
      then have "length m - 1 \<in> {a..<a + l}" "0 < length m" by (auto simp: free_run_def)
      then have "m ! (length m - 1) = None" "0 < length m" using r by (auto simp: free_run_def)
      then show False using prev by simp
    qed
    moreover have "free_run m a l \<Longrightarrow> a + l \<le> length m" by (simp add: free_run_def)
    ultimately show ?thesis by (auto simp: order_le_less)
  qed
  have "best_of (free_run m) (bestStart s) (bestSize s)"
    using inv best_of_same [OF same] by (simp add: scan_inv_def)
  then show ?thesis using le by (simp add: WorstFit_final_def)
next
  case True
  then have c: "0 \<le> currentStart s" "0 < currentSize s" "currentStart s + currentSize s = int (length m)"
    "\<forall>j \<in> {nat (currentStart s)..<length m}. m ! j = None"
    "currentStart s = 0 \<or> m ! (nat (currentStart s) - 1) \<noteq> None"
    using inv by (auto simp: scan_inv_def)
  define c0 where "c0 = nat (currentStart s)"
  define k where "k = nat (currentSize s)"
  have ck: "int c0 = currentStart s" "int k = currentSize s" "0 < k" "c0 + k = length m"
    using c by (auto simp: c0_def k_def)
  have run: "free_run m c0 k"
    using c ck unfolding free_run_def c0_def [symmetric] by auto
  have new: "free_run m a l \<longleftrightarrow> (free_run m a l \<and> a + l < length m) \<or> (a = c0 \<and> l = k)" for a l
  proof -
    have "free_run m a l \<Longrightarrow> a + l \<le> length m" by (simp add: free_run_def)
    then show ?thesis
      using run ck free_run_same_end [of m a l c0 k] by (auto simp: order_le_less)
  qed
  have before: "a < c0" if "free_run m a l \<and> a + l < length m" for a l
    using free_run_before [of m a l "length m" c0] that c(4) by (auto simp: c0_def)
  have old: "best_of (\<lambda>a l. free_run m a l \<and> a + l < length m) (bestStart s) (bestSize s)"
    using inv by (simp add: scan_inv_def)
  note upd = best_of_add [OF old new ck(3) before]
  show ?thesis using upd ck by (auto simp: WorstFit_final_def)
qed

lemma WorstFit_eq:
  "\<exists>start found. WorstFit m n = (start, found, if n > found then Some ErrNotEnoughSpace else None) \<and>
     best_of (free_run m) start found"
  using WorstFit_final_best [OF scan_inv_foldl [OF order_refl]]
  by (simp add: WorstFit_def Let_def)



text \<open>
  Claim C1, amended. For every memory and every size, \<^verbatim>\<open>WorstFit\<close> fails with
  InsufficientSpace exactly when the length it returns is smaller than the size. When
  the memory has a free run, the start and the length it returns are those of a free
  run that is at least as long as every free run and starts before every other free run
  of that length, also when it fails. When the memory has no free cell it returns the
  start \<open>-1\<close> and the length 0.
\<close>

theorem WorstFit_earliest_largest_run:
  "\<exists>start found.
     WorstFit m n = (start, found, if found < n then Some ErrNotEnoughSpace else None) \<and>
     (if \<exists>s l. free_run m s l
      then 0 \<le> start \<and> 0 < found \<and> free_run m (nat start) (nat found) \<and>
           (\<forall>s l. free_run m s l \<longrightarrow> int l \<le> found \<and> (int l = found \<longrightarrow> start \<le> int s))
      else start = - 1 \<and> found = 0)"
  using WorstFit_eq [of m n] unfolding best_of_def by simp

text \<open>Two free runs of length 2, at 0 and at 3: the one at 0 is returned.\<close>

theorem WorstFit_earliest_largest_run_witness:
  "\<exists>start found.
     WorstFit [None, None, Some 0, None, None] 2 = (start, found, None) \<and>
     0 \<le> start \<and> found = 2 \<and> free_run [None, None, Some 0, None, None] (nat start) (nat found) \<and>
     start \<le> 0"
proof -
  let ?m = "[None, None, Some 0, None, None] :: Memory"
  have r0: "free_run ?m 0 2" by code_simp
  have r3: "free_run ?m 3 2" by code_simp
  then have ex: "\<exists>s l. free_run ?m s l" by blast
  from WorstFit_earliest_largest_run [of ?m 2] ex
  obtain start found where w: "WorstFit ?m 2 = (start, found, if found < 2 then Some ErrNotEnoughSpace else None)"
    and p: "0 \<le> start" "0 < found" "free_run ?m (nat start) (nat found)"
      "\<forall>s l. free_run ?m s l \<longrightarrow> int l \<le> found \<and> (int l = found \<longrightarrow> start \<le> int s)"
    by auto
  have "nat start + nat found \<le> 5" using p(3) by (simp add: free_run_def)
  have le: "2 \<le> found" using p(4) r0 by fastforce
  have "found = 2"
  proof (rule ccontr)
    assume "found \<noteq> 2"
    then have big: "3 \<le> nat found" using le by simp
    have b: "nat start + nat found \<le> 5" "\<forall>j \<in> {nat start..<nat start + nat found}. ?m ! j = None"
      using p(3) by (simp_all add: free_run_def)
    have "2 \<in> {nat start..<nat start + nat found}" using big b(1) by auto
    then have "?m ! 2 = None" using b(2) by blast
    then show False by simp
  qed
  moreover have "start \<le> 0" using p(4) r0 \<open>found = 2\<close> by fastforce
  ultimately show ?thesis using w p by auto
qed

text \<open>
  The claim as it was stated fails for a memory with no free cell: the start returned
  is \<open>-1\<close>, which is the index of no cell.
\<close>

theorem WorstFit_full_memory_counterexample:
  "WorstFit [Some 0] 1 = (- 1, 0, Some ErrNotEnoughSpace)"
  by (simp add: WorstFit_def WorstFit_final_def WorstFit_init_def WorstFit_step_def)

text \<open>
  \<^verbatim>\<open>HasSpace(size)\<close> holds for a positive size exactly when a free run of at least
  that length exists.
\<close>

theorem HasSpace_iff:
  assumes "0 < n"
  shows "HasSpace m n \<longleftrightarrow> (\<exists>s l. free_run m s l \<and> n \<le> int l)"
proof -
  obtain start found where w: "WorstFit m n = (start, found, if n > found then Some ErrNotEnoughSpace else None)"
    and b: "best_of (free_run m) start found"
    using WorstFit_eq [of m n] by blast
  have hs: "HasSpace m n \<longleftrightarrow> n \<le> found" using w by (simp add: HasSpace_def)
  show ?thesis
  proof (cases "\<exists>s l. free_run m s l")
    case False
    then have "found = 0" using b by (simp add: best_of_def)
    then show ?thesis using hs False assms by auto
  next
    case True
    then have p: "free_run m (nat start) (nat found)" "0 < found"
      "\<forall>s l. free_run m s l \<longrightarrow> int l \<le> found"
      using b by (auto simp: best_of_def)
    show ?thesis
    proof
      assume "HasSpace m n"
      then have "free_run m (nat start) (nat found) \<and> n \<le> int (nat found)" using hs p by simp
      then show "\<exists>s l. free_run m s l \<and> n \<le> int l" by blast
    next
      assume "\<exists>s l. free_run m s l \<and> n \<le> int l"
      then show "HasSpace m n" using hs p(3) by force
    qed
  qed
qed

theorem HasSpace_iff_witness:
  "HasSpace [None, None, Some 0, None, None] 2 \<and> \<not> HasSpace [None, None, Some 0, None, None] 3"
proof -
  let ?m = "[None, None, Some 0, None, None] :: Memory"
  have r: "free_run ?m 0 2" by code_simp
  have 1: "HasSpace ?m 2" using HasSpace_iff [of 2 ?m] r by force
  have "\<not> (\<exists>s l. free_run ?m s l \<and> (3::int) \<le> int l)"
  proof
    assume "\<exists>s l. free_run ?m s l \<and> (3::int) \<le> int l"
    then obtain s l where f: "free_run ?m s l" "3 \<le> l" by auto
    then have b: "s + l \<le> 5" "\<forall>j \<in> {s..<s + l}. ?m ! j = None" by (simp_all add: free_run_def)
    have "2 \<in> {s..<s + l}" using f(2) b(1) by auto
    then have "?m ! 2 = None" using b(2) by blast
    then show False by simp
  qed
  then have 2: "\<not> HasSpace ?m 3" using HasSpace_iff [of 3 ?m] by simp
  show ?thesis using 1 2 by simp
qed

section \<open>Allocation followed by release\<close>



section \<open>Layout\<close>

lemma blocks_upto_nonempty: "0 < n \<Longrightarrow> blocks_upto h m n \<noteq> []"
proof (induction n)
  case 0
  then show ?case by simp
next
  case (Suc n)
  show ?case
  proof (cases "n = 0")
    case True
    then show ?thesis by (simp add: block_start_def)
  next
    case False
    then show ?thesis using Suc by simp
  qed
qed

lemma Layout_bump_new:
  "Layout_bump (layout @ [b]) prev = Return (layout @ [b\<lparr>Size := Size b + 1\<rparr>], prev)"
  by (simp add: Layout_bump_def)

lemma Layout_foldl:
  "n \<le> length m \<Longrightarrow>
   foldl (Layout_step h m) (Return ([], False)) [0..<n] =
     Return (blocks_upto h m n, 0 < n \<and> m ! (n - 1) = None)"
proof (induction n)
  case 0
  show ?case by simp
next
  case (Suc n)
  then have n: "n < length m" by simp
  have ih: "foldl (Layout_step h m) (Return ([], False)) [0..<n] =
     Return (blocks_upto h m n, 0 < n \<and> m ! (n - 1) = None)"
    using Suc by simp
  have step: "Layout_step h m (Return (blocks_upto h m n, 0 < n \<and> m ! (n - 1) = None)) n =
     Return (blocks_upto h m (Suc n), m ! n = None)"
  proof (cases "n = 0")
    case True
    then show ?thesis
      by (cases "m ! 0")
        (simp_all add: Layout_step_def Layout_starts_nonempty_def Layout_bump_def block_start_def block_name_def)
  next
    case False
    then have c: "cell m (int n - 1) = Return (m ! (n - 1))"
      using n by (simp add: cell_def nat_diff_distrib')
    have ne: "blocks_upto h m n \<noteq> []" using False by (simp add: blocks_upto_nonempty)
    show ?thesis
    proof (cases "m ! n")
      case None
      then show ?thesis
        using False c ne
        by (cases "m ! (n - 1)")
          (simp_all add: Layout_step_def Layout_starts_nonempty_def Layout_bump_new Layout_bump_def
            block_start_def block_name_def)
    next
      case (Some q)
      then show ?thesis
        using False c ne
        by (cases "m ! (n - 1) = Some q")
          (simp_all add: Layout_step_def Layout_starts_nonempty_def Layout_bump_new Layout_bump_def
            block_start_def block_name_def)
    qed
  qed
  show ?case using ih step by simp
qed

lemma Layout_eq: "Layout h m = Return (blocks_upto h m (length m))"
  by (simp add: Layout_def Layout_foldl)

lemma tiled_new:
  assumes "tiled m h n bs" "block_start m n"
  shows "tiled m h (Suc n) (bs @ [\<lparr>Start = int n, Size = 1, Name = block_name h (m ! n)\<rparr>])"
proof -
  let ?b = "\<lparr>Start = int n, Size = 1, Name = block_name h (m ! n)\<rparr>"
  have a: "map Start (bs @ [?b]) = map int (filter (block_start m) [0..<Suc n])"
    using assms by (simp add: tiled_def)
  have b: "Start ((bs @ [?b]) ! k) + Size ((bs @ [?b]) ! k) =
        (if Suc k < length (bs @ [?b]) then Start ((bs @ [?b]) ! Suc k) else int (Suc n))"
    if "k < length (bs @ [?b])" for k
  proof (cases "k < length bs")
    case True
    then have old: "Start (bs ! k) + Size (bs ! k) = (if Suc k < length bs then Start (bs ! Suc k) else int n)"
      using assms(1) by (simp add: tiled_def)
    show ?thesis
    proof (cases "Suc k < length bs")
      case True
      then show ?thesis using old by (simp add: nth_append)
    next
      case False
      then have "Suc k = length bs" using True by simp
      then show ?thesis using old True by (simp add: nth_append)
    qed
  next
    case False
    then have "k = length bs" using that by simp
    then show ?thesis by simp
  qed
  have c: "MemoryBlock.Name ((bs @ [?b]) ! k) = block_name h (m ! nat (Start ((bs @ [?b]) ! k)))"
    if "k < length (bs @ [?b])" for k
  proof (cases "k < length bs")
    case True
    then show ?thesis using assms(1) by (simp add: tiled_def nth_append)
  next
    case False
    then have "k = length bs" using that by simp
    then show ?thesis by simp
  qed
  show ?thesis unfolding tiled_def using a b c by blast
qed

lemma tiled_grow:
  assumes "tiled m h n (bs @ [b])" "\<not> block_start m n"
  shows "tiled m h (Suc n) (bs @ [b\<lparr>Size := Size b + 1\<rparr>])"
proof -
  let ?b = "b\<lparr>Size := Size b + 1\<rparr>"
  have a: "map Start (bs @ [?b]) = map int (filter (block_start m) [0..<Suc n])"
    using assms by (simp add: tiled_def)
  have b: "Start ((bs @ [?b]) ! k) + Size ((bs @ [?b]) ! k) =
        (if Suc k < length (bs @ [?b]) then Start ((bs @ [?b]) ! Suc k) else int (Suc n))"
    if "k < length (bs @ [?b])" for k
  proof -
    have old: "Start ((bs @ [b]) ! k) + Size ((bs @ [b]) ! k) =
        (if Suc k < length (bs @ [b]) then Start ((bs @ [b]) ! Suc k) else int n)"
      using assms(1) that by (simp add: tiled_def)
    show ?thesis
    proof (cases "k < length bs")
      case True
      then show ?thesis using old by (auto simp: nth_append split: if_splits)
    next
      case False
      then have "k = length bs" using that by simp
      then show ?thesis using old by simp
    qed
  qed
  have c: "MemoryBlock.Name ((bs @ [?b]) ! k) = block_name h (m ! nat (Start ((bs @ [?b]) ! k)))"
    if "k < length (bs @ [?b])" for k
  proof -
    have old: "MemoryBlock.Name ((bs @ [b]) ! k) = block_name h (m ! nat (Start ((bs @ [b]) ! k)))"
      using assms(1) that by (simp add: tiled_def)
    show ?thesis
    proof (cases "k < length bs")
      case True
      then show ?thesis using old by (simp add: nth_append)
    next
      case False
      then have "k = length bs" using that by simp
      then show ?thesis using old by simp
    qed
  qed
  show ?thesis unfolding tiled_def using a b c by blast
qed

lemma tiled_blocks_upto: "tiled m h n (blocks_upto h m n)"
proof (induction n)
  case 0
  show ?case by (simp add: tiled_def)
next
  case (Suc n)
  show ?case
  proof (cases "block_start m n")
    case True
    then show ?thesis using tiled_new [OF Suc True] by simp
  next
    case False
    then have "0 < n" by (auto simp: block_start_def)
    then have "blocks_upto h m n \<noteq> []" by (rule blocks_upto_nonempty)
    then have split: "blocks_upto h m n = butlast (blocks_upto h m n) @ [last (blocks_upto h m n)]"
      by simp
    have "tiled m h n (butlast (blocks_upto h m n) @ [last (blocks_upto h m n)])"
      using Suc split by simp
    from tiled_grow [OF this False] show ?thesis using False by simp
  qed
qed

text \<open>
  Claim C9. \<^verbatim>\<open>Layout\<close> returns, and its blocks are the run-length encoding of the
  memory from left to right: the starts of the blocks are, in order, the cell 0 and the
  cells whose owner is not the owner of the cell before; every block ends where the next
  one starts, and the last one at the length of the memory; a block is named
  \<^verbatim>\<open>FREE_BLOCK\<close> when its first cell is free and after the owner of its first cell
  otherwise. With ten cells and P1 of size 3 allocated at 0 the blocks are
  \<open>{0, 3, P1}\<close> and \<open>{3, 7, FREE_BLOCK}\<close>.
\<close>

theorem Layout_run_length_encoding:
  "\<exists>bs. Layout h m = Return bs \<and>
     map Start bs = map int (filter (\<lambda>i. i = 0 \<or> m ! (i - 1) \<noteq> m ! i) [0..<length m]) \<and>
     (\<forall>k < length bs.
        Start (bs ! k) + Size (bs ! k) =
          (if Suc k < length bs then Start (bs ! Suc k) else int (length m)) \<and>
        MemoryBlock.Name (bs ! k) =
          (case m ! nat (Start (bs ! k)) of None \<Rightarrow> FREE_BLOCK | Some q \<Rightarrow> Process.Name (h q))) \<and>
     Layout (heap (fst (Allocate scenario_start (Some 0) 0))) (mem (fst (Allocate scenario_start (Some 0) 0))) =
       Return [\<lparr>Start = 0, Size = 3, Name = ''P1''\<rparr>, \<lparr>Start = 3, Size = 7, Name = FREE_BLOCK\<rparr>]"
proof -
  have t: "tiled m h (length m) (blocks_upto h m (length m))" by (rule tiled_blocks_upto)
  have bs: "block_start m = (\<lambda>i. i = 0 \<or> m ! (i - 1) \<noteq> m ! i)" by (rule ext) (simp add: block_start_def)
  have general: "Layout h m = Return (blocks_upto h m (length m)) \<and>
     map Start (blocks_upto h m (length m)) = map int (filter (\<lambda>i. i = 0 \<or> m ! (i - 1) \<noteq> m ! i) [0..<length m]) \<and>
     (\<forall>k < length (blocks_upto h m (length m)).
        Start (blocks_upto h m (length m) ! k) + Size (blocks_upto h m (length m) ! k) =
          (if Suc k < length (blocks_upto h m (length m)) then Start (blocks_upto h m (length m) ! Suc k) else int (length m)) \<and>
        MemoryBlock.Name (blocks_upto h m (length m) ! k) =
          (case m ! nat (Start (blocks_upto h m (length m) ! k)) of None \<Rightarrow> FREE_BLOCK | Some q \<Rightarrow> Process.Name (h q)))"
    using t unfolding tiled_def bs block_name_def by (simp add: Layout_eq)
  have "blocks_upto (heap scenario_A) (mem scenario_A) (length (mem scenario_A)) =
       [\<lparr>Start = 0, Size = 3, Name = ''P1''\<rparr>, \<lparr>Start = 3, Size = 7, Name = FREE_BLOCK\<rparr>]"
    by (simp add: scenario_A_def scenario_heap_def P1_def numeral_eq_Suc block_start_def block_name_def)
  then have scen: "Layout (heap (fst (Allocate scenario_start (Some 0) 0))) (mem (fst (Allocate scenario_start (Some 0) 0))) =
       Return [\<lparr>Start = 0, Size = 3, Name = ''P1''\<rparr>, \<lparr>Start = 3, Size = 7, Name = FREE_BLOCK\<rparr>]"
    by (simp add: scenario_A_eq Layout_eq)
  show ?thesis using general scen by blast
qed

text \<open>Five cells: P1, P1, free, P2, P1.\<close>

theorem Layout_run_length_encoding_witness:
  "\<exists>bs. Layout scenario_heap [Some 0, Some 0, None, Some 1, Some 0] = Return bs \<and>
     map Start bs = [0, 2, 3, 4] \<and> map Size bs = [2, 1, 1, 1] \<and>
     map MemoryBlock.Name bs = [''P1'', FREE_BLOCK, ''P2'', ''P1'']"
proof -
  let ?m = "[Some 0, Some 0, None, Some 1, Some 0] :: Memory"
  from Layout_run_length_encoding [of scenario_heap ?m] obtain bs where
    l: "Layout scenario_heap ?m = Return bs"
    and st: "map Start bs = map int (filter (\<lambda>i. i = 0 \<or> ?m ! (i - 1) \<noteq> ?m ! i) [0..<length ?m])"
    and each: "\<forall>k < length bs.
        Start (bs ! k) + Size (bs ! k) =
          (if Suc k < length bs then Start (bs ! Suc k) else int (length ?m)) \<and>
        MemoryBlock.Name (bs ! k) =
          (case ?m ! nat (Start (bs ! k)) of None \<Rightarrow> FREE_BLOCK | Some q \<Rightarrow> Process.Name (scenario_heap q))"
    by blast
  have starts: "map Start bs = [0, 2, 3, 4]"
    using st by (simp add: upt_conv_Cons)
  then obtain b0 b1 b2 b3 where bs: "bs = [b0, b1, b2, b3]"
    and s: "Start b0 = 0" "Start b1 = 2" "Start b2 = 3" "Start b3 = 4"
    by (auto simp: map_eq_Cons_conv)
  have e0: "Size b0 = 2 \<and> MemoryBlock.Name b0 = ''P1''"
    using each [rule_format, of 0] bs s by (simp add: scenario_heap_def P1_def)
  have e1: "Size b1 = 1 \<and> MemoryBlock.Name b1 = FREE_BLOCK"
    using each [rule_format, of 1] bs s by (simp add: scenario_heap_def P1_def)
  have e2: "Size b2 = 1 \<and> MemoryBlock.Name b2 = ''P2''"
    using each [rule_format, of 2] bs s by (simp add: scenario_heap_def P2_def)
  have e3: "Size b3 = 1 \<and> MemoryBlock.Name b3 = ''P1''"
    using each [rule_format, of 3] bs s by (simp add: scenario_heap_def P1_def)
  show ?thesis using l bs s e0 e1 e2 e3 by simp
qed

section \<open>Invariants of the reachable states\<close>




























text \<open>
  Scenarios B and C: after P1 at 0 and P2 by worst fit, the layout is \<open>{0, 3, P1}\<close>,
  \<open>{3, 4, P2}\<close>, \<open>{7, 3, FREE_BLOCK}\<close>; the largest free run has 3 cells, so there
  is no space for 4 cells and there is space for 3.
\<close>

theorem scenario_B_C:
  "case run scenario_start [OpAllocate (Some 0) 0, OpAllocateWorstFit (Some 1)] of
     None \<Rightarrow> False
   | Some s \<Rightarrow>
       Layout (heap s) (mem s) =
         Return [\<lparr>Start = 0, Size = 3, Name = ''P1''\<rparr>, \<lparr>Start = 3, Size = 4, Name = ''P2''\<rparr>,
                 \<lparr>Start = 7, Size = 3, Name = FREE_BLOCK\<rparr>] \<and>
       WorstFit (mem s) 4 = (7, 3, Some ErrNotEnoughSpace) \<and>
       \<not> HasSpace (mem s) 4 \<and> HasSpace (mem s) 3 \<and> TotalFree (mem s) = 3"
  by code_simp





end
